theory Spec2Isabelle
  imports Main
begin

section \<open>Python strings\<close>

text \<open>
  A Python \<open>str\<close> is modelled as a \<open>string\<close>, each \<open>char\<close> standing for the code point
  of the same number (so the model covers the code points below 256).
  \<open>isspace\<close> lists the code points below 256 that \<open>str.isspace\<close> accepts, which are the
  ones \<open>str.strip()\<close> removes from both ends.
\<close>

definition isspace :: "char \<Rightarrow> bool" where
  "isspace c = (c \<in> set [CHR 0x09, CHR 0x0A, CHR 0x0B, CHR 0x0C, CHR 0x0D,
                          CHR 0x1C, CHR 0x1D, CHR 0x1E, CHR 0x1F, CHR 0x20,
                          CHR 0x85, CHR 0xA0])"

definition strip :: "string \<Rightarrow> string" where
  "strip s = rev (dropWhile isspace (rev (dropWhile isspace s)))"

text \<open>
  \<open>str.lower()\<close>: the upper-case letters below 256 are \<open>A\<close> to \<open>Z\<close> and the code points
  192 to 222 other than 215 (the multiplication sign); each is 32 below its lower-case
  letter.
\<close>

definition lower_char :: "char \<Rightarrow> char" where
  "lower_char c =
     (let n = (of_char c :: nat)
      in if (65 \<le> n \<and> n \<le> 90) \<or> (192 \<le> n \<and> n \<le> 222 \<and> n \<noteq> 215)
         then char_of (n + 32) else c)"

definition lower :: "string \<Rightarrow> string" where
  "lower s = map lower_char s"

definition startswith :: "string \<Rightarrow> string \<Rightarrow> bool" where
  "startswith s prefix = (take (length prefix) s = prefix)"


section \<open>Character creation: \<open>start_new_game\<close> (main.py)\<close>






section \<open>The play loop: \<open>play_game\<close> (main.py)\<close>

text \<open>The calls \<open>play_game\<close> makes on the game and on the display.\<close>

datatype game_call =
    ShowGameState
  | SaveGame
  | ShowHelp
  | ShowInventory
  | ShowPlayerStatus
  | LookAround
  | MovePlayer string
  | AttackCreature string
  | TalkToNpc string
  | UseItem string
  | TakeItem string
  | ProcessCommand string

text \<open>
  The \<^verbatim>\<open>if\<close>/\<^verbatim>\<open>elif\<close> chain on the normalised command, in the source's order: the call the
  branch awaits, and whether the branch ends with \<^verbatim>\<open>break\<close>.
\<close>

definition dispatch :: "string \<Rightarrow> game_call \<times> bool" where
  "dispatch command =
     (if command \<in> set [''quit'', ''exit'', ''q''] then (SaveGame, True)
      else if command \<in> set [''save'', ''s''] then (SaveGame, False)
      else if command \<in> set [''help'', ''h'', ''?''] then (ShowHelp, False)
      else if command \<in> set [''inventory'', ''i'', ''inv''] then (ShowInventory, False)
      else if command \<in> set [''status'', ''stats'', ''st''] then (ShowPlayerStatus, False)
      else if command \<in> set [''look'', ''l''] then (LookAround, False)
      else if command \<in> set [''north'', ''n''] then (MovePlayer ''north'', False)
      else if command \<in> set [''south'', ''s''] then (MovePlayer ''south'', False)
      else if command \<in> set [''east'', ''e''] then (MovePlayer ''east'', False)
      else if command \<in> set [''west'', ''w''] then (MovePlayer ''west'', False)
      else if startswith command ''attack '' then (AttackCreature (strip (drop 7 command)), False)
      else if startswith command ''talk '' then (TalkToNpc (strip (drop 5 command)), False)
      else if startswith command ''use '' then (UseItem (strip (drop 4 command)), False)
      else if startswith command ''take '' then (TakeItem (strip (drop 5 command)), False)
      else (ProcessCommand command, False))"

text \<open>
  What the loop cannot control is given from outside, one \<open>turn\<close> per iteration: whether
  \<open>display.show_game_state\<close> returns or raises, what \<open>console.input\<close> returns (or which
  exception it raises), and whether the call awaited by the branch returns or raises.
  A raised exception is an instance of \<open>Exception\<close>, a \<open>KeyboardInterrupt\<close>, or an
  \<open>asyncio.CancelledError\<close>: the loop runs inside \<open>asyncio.run\<close> (\<open>main\<close>, line 43),
  which can deliver an interrupt from the keyboard by cancelling the running task, and
  the pending \<^verbatim>\<open>await\<close> of a cancelled task raises \<open>CancelledError\<close>. Neither
  \<open>KeyboardInterrupt\<close> nor \<open>CancelledError\<close> is an instance of \<open>Exception\<close>.
  \<open>CancelledError\<close> also stands for the remaining exceptions outside \<open>Exception\<close>
  (\<open>SystemExit\<close>, \<open>GeneratorExit\<close>): no \<^verbatim>\<open>except\<close> clause of \<open>play_game\<close> or of
  \<open>run_game\<close> catches any of them.
\<close>

datatype signal = Exception | KeyboardInterrupt | CancelledError

record turn =
  show_game_state :: "signal option"
  console_input :: "signal + string"
  awaited_call :: "signal option"

datatype loop_end = Break | Raised signal | AwaitingInput

text \<open>
  The \<^verbatim>\<open>while True\<close> loop on a finite prefix of turns: the calls made, in order, each with
  its outcome (\<open>None\<close> when the call returned, the exception when it raised), and how the
  loop ended; \<open>AwaitingInput\<close> when the turns given are used up and the loop is still
  running.
\<close>

fun play_loop :: "turn list \<Rightarrow> (game_call \<times> signal option) list \<times> loop_end" where
  "play_loop [] = ([], AwaitingInput)"
| "play_loop (t # ts) =
     (case show_game_state t of
        Some sg \<Rightarrow> ([(ShowGameState, Some sg)], Raised sg)
      | None \<Rightarrow>
          (case console_input t of
             Inl sg \<Rightarrow> ([(ShowGameState, None)], Raised sg)
           | Inr line \<Rightarrow>
               (case awaited_call t of
                  Some sg \<Rightarrow>
                    ([(ShowGameState, None), (fst (dispatch (lower (strip line))), Some sg)],
                     Raised sg)
                | None \<Rightarrow>
                    if snd (dispatch (lower (strip line)))
                    then ([(ShowGameState, None), (fst (dispatch (lower (strip line))), None)],
                          Break)
                    else ((ShowGameState, None) # (fst (dispatch (lower (strip line))), None)
                            # fst (play_loop ts),
                          snd (play_loop ts)))))"

text \<open>
  How \<open>play_game\<close> ends: after the \<^verbatim>\<open>break\<close> of the quit branch; through
  \<^verbatim>\<open>except KeyboardInterrupt\<close>, whose handler awaits \<open>game.save_game()\<close> (the argument
  tells whether that call returned or raised; what it raises leaves \<open>play_game\<close>);
  through \<^verbatim>\<open>except Exception\<close>, which only logs and prints; or with a \<open>CancelledError\<close>,
  which neither clause catches. \<open>StillPlaying\<close> when the turns are used up.
\<close>

datatype exit_route =
    AfterQuit
  | AfterKeyboardInterrupt "signal option"
  | AfterException
  | Cancelled
  | StillPlaying

definition play_game ::
  "turn list \<Rightarrow> signal option \<Rightarrow> (game_call \<times> signal option) list \<times> exit_route" where
  "play_game turns handler_save =
     (case play_loop turns of
        (calls, Break) \<Rightarrow> (calls, AfterQuit)
      | (calls, Raised KeyboardInterrupt) \<Rightarrow>
          (calls @ [(SaveGame, handler_save)], AfterKeyboardInterrupt handler_save)
      | (calls, Raised Exception) \<Rightarrow> (calls, AfterException)
      | (calls, Raised CancelledError) \<Rightarrow> (calls, Cancelled)
      | (calls, AwaitingInput) \<Rightarrow> (calls, StillPlaying))"

text \<open>
  Whether control is back at the main menu of \<open>run_game\<close> after \<open>play_game\<close>:
  \<open>run_game\<close> goes on with its loop when \<open>play_game\<close> returns and when it raises a
  \<open>KeyboardInterrupt\<close> or an \<open>Exception\<close> (lines 102 to 108); a \<open>CancelledError\<close>
  leaves \<open>run_game\<close> as well.
\<close>

fun back_at_menu :: "exit_route \<Rightarrow> bool" where
  "back_at_menu AfterQuit = True"
| "back_at_menu (AfterKeyboardInterrupt None) = True"
| "back_at_menu (AfterKeyboardInterrupt (Some CancelledError)) = False"
| "back_at_menu (AfterKeyboardInterrupt (Some sg)) = True"
| "back_at_menu AfterException = True"
| "back_at_menu Cancelled = False"
| "back_at_menu StillPlaying = False"


section \<open>The quest generator plugin: \<open>QuestGeneratorPlugin\<close> (examples/plugin_example.py)\<close>

text \<open>
  The \<open>Quest\<close> and \<open>Player\<close> classes belong to the game core; the records hold the fields
  the sources read and write. A \<open>Quest\<close> is built from the five keyword arguments of
  \<open>_generate_starter_quest\<close>; its \<open>progress\<close> starts at 0 (the data model of the
  specification: progress counts from 0 up to \<open>target_count\<close>), and a quest object is
  truthy in \<^verbatim>\<open>if quest and ...\<close>.
\<close>

record quest =
  title :: string
  description :: string
  quest_type :: string
  target_count :: int
  reward_exp :: int
  progress :: int

record player =
  name :: string
  player_class :: string
  level :: int
  health :: int
  max_health :: int
  attack :: int
  experience :: int
  location :: string

text \<open>
  \<open>random.choice(self.quest_templates)\<close> picks one of the three templates; the pick is an
  input of the model. \<open>new_quest\<close> is the \<open>Quest(...)\<close> built from the picked template,
  the description formatted with the template's count, "goblin" and "treasure".
\<close>

datatype template = MonsterHunter | Explorer | Collector

fun new_quest :: "template \<Rightarrow> quest" where
  "new_quest MonsterHunter =
     \<lparr>title = ''Monster Hunter'', description = ''Defeat 3 goblin creatures'',
      quest_type = ''combat'', target_count = 3, reward_exp = 100, progress = 0\<rparr>"
| "new_quest Explorer =
     \<lparr>title = ''Explorer'', description = ''Visit 5 different locations'',
      quest_type = ''exploration'', target_count = 5, reward_exp = 75, progress = 0\<rparr>"
| "new_quest Collector =
     \<lparr>title = ''Collector'', description = ''Collect 10 treasure items'',
      quest_type = ''collection'', target_count = 10, reward_exp = 50, progress = 0\<rparr>"

text \<open>
  The plugin's state. Quest objects are mutable and are held by reference, so they live
  in a store: \<open>quests\<close> lists every \<open>Quest\<close> object created so far, and a reference is
  an index into it (an object that the dictionary no longer holds stays in the store,
  as it would for anyone who still held a reference to it). \<open>active_quests\<close> is the
  dictionary \<open>self.active_quests\<close>, from player name to quest reference. \<open>completed\<close>
  records the calls of \<open>_complete_quest\<close>, by the quest passed, in order.
\<close>

record quest_generator =
  quests :: "quest list"
  active_quests :: "string \<rightharpoonup> nat"
  completed :: "nat list"

definition new_plugin :: quest_generator where
  "new_plugin = \<lparr>quests = [], active_quests = Map.empty, completed = []\<rparr>"

definition generate_starter_quest ::
  "template \<Rightarrow> player \<Rightarrow> quest_generator \<Rightarrow> quest_generator" where
  "generate_starter_quest choice p s =
     s\<lparr>quests := quests s @ [new_quest choice],
       active_quests := (active_quests s)(name p \<mapsto> length (quests s))\<rparr>"

text \<open>\<^verbatim>\<open>quest.progress += 1\<close> on the quest object at reference \<open>a\<close>.\<close>

definition increment_progress :: "nat \<Rightarrow> quest_generator \<Rightarrow> quest_generator" where
  "increment_progress a s =
     s\<lparr>quests := (quests s)[a := (quests s ! a)\<lparr>progress := progress (quests s ! a) + 1\<rparr>]\<rparr>"

text \<open>
  \<open>_complete_quest\<close>: the reward is added to the player's experience, then a new starter
  quest replaces the player's entry in the dictionary.
\<close>

definition complete_quest ::
  "template \<Rightarrow> player \<Rightarrow> nat \<Rightarrow> quest_generator \<Rightarrow> quest_generator \<times> player" where
  "complete_quest choice p a s =
     (let p' = p\<lparr>experience := experience p + reward_exp (quests s ! a)\<rparr>
      in (generate_starter_quest choice p' (s\<lparr>completed := completed s @ [a]\<rparr>), p'))"

definition update_quest_progress ::
  "template \<Rightarrow> player \<Rightarrow> string \<Rightarrow> quest_generator \<Rightarrow> quest_generator \<times> player" where
  "update_quest_progress choice p qtype s =
     (case active_quests s (name p) of
        None \<Rightarrow> (s, p)
      | Some a \<Rightarrow>
          if quest_type (quests s ! a) = qtype
          then (let s' = increment_progress a s
                in if progress (quests s' ! a) \<ge> target_count (quests s' ! a)
                   then complete_quest choice p a s'
                   else (s', p))
          else (s, p))"

text \<open>
  The four hooks the plugin implements, each with the template \<open>random.choice\<close> yields
  should the call generate a quest. A hook gets the player and may change it.
\<close>

datatype hook = OnGameStart | OnCreatureDefeated | OnLocationVisited | OnItemCollected

fun on_hook ::
  "hook \<Rightarrow> template \<Rightarrow> player \<Rightarrow> quest_generator \<Rightarrow> quest_generator \<times> player" where
  "on_hook OnGameStart choice p s = (generate_starter_quest choice p s, p)"
| "on_hook OnCreatureDefeated choice p s = update_quest_progress choice p ''combat'' s"
| "on_hook OnLocationVisited choice p s = update_quest_progress choice p ''exploration'' s"
| "on_hook OnItemCollected choice p s = update_quest_progress choice p ''collection'' s"

text \<open>
  A sequence of hook calls, each with the player object passed to it as it is at the
  time of the call (the game's player, whatever happened to it since the call before):
  the plugin's state after the calls, and the players as the calls left them.
\<close>

fun run_hooks ::
  "(hook \<times> template \<times> player) list \<Rightarrow> quest_generator \<Rightarrow> quest_generator \<times> player list" where
  "run_hooks [] s = (s, [])"
| "run_hooks ((h, choice, p) # events) s =
     (fst (run_hooks events (fst (on_hook h choice p s))),
      snd (on_hook h choice p s) # snd (run_hooks events (fst (on_hook h choice p s))))"

text \<open>The experience the hook calls themselves added to the players passed to them.\<close>

fun experience_gained :: "(hook \<times> template \<times> player) list \<Rightarrow> player list \<Rightarrow> int" where
  "experience_gained ((h, choice, p) # events) (p' # ps) =
     experience p' - experience p + experience_gained events ps"
| "experience_gained events ps = 0"

text \<open>
  The invariant of the plugin's state: the dictionary holds references to existing
  quests that are still short of their target, no two names share a quest, no quest is
  past its target, and the completions recorded are, once each, the quests at their
  target.
\<close>

definition consistent :: "quest_generator \<Rightarrow> bool" where
  "consistent s \<longleftrightarrow>
     (\<forall>n a. active_quests s n = Some a \<longrightarrow>
        a < length (quests s) \<and> progress (quests s ! a) < target_count (quests s ! a))
   \<and> (\<forall>n m a. active_quests s n = Some a \<and> active_quests s m = Some a \<longrightarrow> n = m)
   \<and> (\<forall>a < length (quests s). progress (quests s ! a) \<le> target_count (quests s ! a))
   \<and> distinct (completed s)
   \<and> (\<forall>a. a \<in> set (completed s) \<longleftrightarrow>
        a < length (quests s) \<and> progress (quests s ! a) = target_count (quests s ! a))"

text \<open>A player to run the hooks with.\<close>

definition hero :: player where
  "hero = \<lparr>name = ''Hero'', player_class = ''warrior'', level = 1, health = 100,
           max_health = 100, attack = 10, experience = 0, location = ''start''\<rparr>"

text \<open>The reward experience of the completions recorded.\<close>

definition rewards :: "quest_generator \<Rightarrow> int" where
  "rewards s = (\<Sum>a\<leftarrow>completed s. reward_exp (quests s ! a))"


section \<open>The entity model and the content cache of the specification\<close>

text \<open>
  Modelled from the spec: \<open>Player.apply_damage\<close> (the game core,
  \<open>llmadventure.core.player\<close>, is not among the sources). Section 4.1:
  "\<open>apply_damage(amount)\<close> clamps health at 0 and returns whether the target became
  defeated". The player is the record above; \<open>health\<close> and \<open>max_health\<close> are the
  fields the examples print.
\<close>

definition apply_damage :: "int \<Rightarrow> player \<Rightarrow> bool \<times> player" where
  "apply_damage amount p =
     (let h = max 0 (health p - amount) in (h = 0, p\<lparr>health := h\<rparr>))"

text \<open>
  Modelled from the spec: the failure kinds of the Generative Content Gateway
  (section 4.3; the gateway is not among the sources).
\<close>

datatype generation_error = Unavailable | InvalidResponse | RateLimited


















section \<open>Properties of character creation\<close>



text \<open>\<open>strip\<close> removes a run of whitespace at each end and nothing else.\<close>

lemma strip_decomp:
  "\<exists>pre suf. s = pre @ strip s @ suf \<and>
     (\<forall>c \<in> set pre. isspace c) \<and> (\<forall>c \<in> set suf. isspace c)"
proof -
  let ?a = "takeWhile isspace s" and ?d = "dropWhile isspace s"
  let ?b = "takeWhile isspace (rev ?d)"
  have 1: "s = ?a @ ?d" by simp
  have "rev ?d = ?b @ dropWhile isspace (rev ?d)" by simp
  then have "?d = rev (dropWhile isspace (rev ?d)) @ rev ?b"
    by (metis rev_append rev_rev_ident)
  then have 2: "?d = strip s @ rev ?b" by (simp add: strip_def)
  have 3: "\<forall>c \<in> set ?a. isspace c" by (auto dest: set_takeWhileD)
  have 4: "\<forall>c \<in> set (rev ?b). isspace c" by (auto dest: set_takeWhileD)
  from 1 2 have "s = ?a @ strip s @ rev ?b" by simp
  with 3 4 show ?thesis by blast
qed





section \<open>Properties of the play loop\<close>

lemma dispatch_break_iff:
  "snd (dispatch c) \<longleftrightarrow> c \<in> set [''quit'', ''exit'', ''q'']"
  unfolding dispatch_def
  by (simp only: snd_conv if_distrib [of snd] if_False if_True simp_thms split: if_split)

lemma dispatch_break_saves: "snd (dispatch c) \<Longrightarrow> fst (dispatch c) = SaveGame"
proof -
  assume "snd (dispatch c)"
  then have "c \<in> set [''quit'', ''exit'', ''q'']" by (simp only: dispatch_break_iff)
  then show ?thesis by (simp add: dispatch_def)
qed

text \<open>The loop is left by \<^verbatim>\<open>break\<close> only right after a call of \<open>save_game\<close> that returned.\<close>

lemma play_loop_Break:
  "play_loop ts = (calls, Break) \<Longrightarrow> calls \<noteq> [] \<and> last calls = (SaveGame, None)"
proof (induction ts arbitrary: calls)
  case Nil
  then show ?case by simp
next
  case (Cons t ts)
  obtain cs e where r: "play_loop ts = (cs, e)" by (cases "play_loop ts")
  from Cons.prems r Cons.IH [of cs] show ?case
    by (auto simp: dispatch_break_saves split: option.splits sum.splits if_splits)
qed

text \<open>Turns that leave the loop running are followed by the turns after them.\<close>

lemma play_loop_append:
  "play_loop pre = (cs, AwaitingInput) \<Longrightarrow>
   play_loop (pre @ rest) = (cs @ fst (play_loop rest), snd (play_loop rest))"
proof (induction pre arbitrary: cs)
  case Nil
  then show ?case by simp
next
  case (Cons t ts)
  obtain cs' e where r: "play_loop ts = (cs', e)" by (cases "play_loop ts")
  from Cons.prems r Cons.IH [of cs'] show ?case
    by (auto split: option.splits sum.splits if_splits)
qed

lemma quit_route_saved:
  assumes "play_game turns h = (calls, AfterQuit)"
  shows "calls \<noteq> [] \<and> last calls = (SaveGame, None)"
  using assms
  by (auto simp: play_game_def split: prod.splits loop_end.splits signal.splits
           dest: play_loop_Break)

lemma interrupt_route_saves:
  assumes "play_game turns h = (calls, AfterKeyboardInterrupt h')"
  shows "h' = h \<and> calls \<noteq> [] \<and> last calls = (SaveGame, h)"
  using assms
  by (auto simp: play_game_def split: prod.splits loop_end.splits signal.splits)

lemma quit_command:
  assumes "play_loop pre = (cs, AwaitingInput)"
    and "show_game_state t = None" and "console_input t = Inr line"
    and "lower (strip line) \<in> set [''quit'', ''exit'', ''q'']"
  shows "play_game (pre @ t # rest) h =
     (case awaited_call t of
        None \<Rightarrow> (cs @ [(ShowGameState, None), (SaveGame, None)], AfterQuit)
      | Some Exception \<Rightarrow>
          (cs @ [(ShowGameState, None), (SaveGame, Some Exception)], AfterException)
      | Some KeyboardInterrupt \<Rightarrow>
          (cs @ [(ShowGameState, None), (SaveGame, Some KeyboardInterrupt), (SaveGame, h)],
           AfterKeyboardInterrupt h)
      | Some CancelledError \<Rightarrow>
          (cs @ [(ShowGameState, None), (SaveGame, Some CancelledError)], Cancelled))"
proof -
  from assms(4) have b: "snd (dispatch (lower (strip line)))"
    by (simp only: dispatch_break_iff)
  then have s: "fst (dispatch (lower (strip line))) = SaveGame"
    by (rule dispatch_break_saves)
  from assms(2,3) b s have
    "play_loop (t # rest) =
       (case awaited_call t of
          None \<Rightarrow> ([(ShowGameState, None), (SaveGame, None)], Break)
        | Some sg \<Rightarrow> ([(ShowGameState, None), (SaveGame, Some sg)], Raised sg))"
    by (simp split: option.splits)
  with play_loop_append [OF assms(1), of "t # rest"] show ?thesis
    by (simp add: play_game_def split: option.splits signal.splits)
qed

lemma keyboard_interrupt:
  assumes "play_loop pre = (cs, AwaitingInput)"
    and "show_game_state t = Some KeyboardInterrupt
         \<or> show_game_state t = None \<and> console_input t = Inl KeyboardInterrupt
         \<or> show_game_state t = None \<and> console_input t = Inr line
             \<and> awaited_call t = Some KeyboardInterrupt"
  shows "\<exists>cs'. play_game (pre @ t # rest) h =
     (cs' @ [(SaveGame, h)], AfterKeyboardInterrupt h)"
proof -
  from assms(2) obtain c where "play_loop (t # rest) = (c, Raised KeyboardInterrupt)"
    by auto
  with play_loop_append [OF assms(1), of "t # rest"] show ?thesis
    by (simp add: play_game_def)
qed

text \<open>
  An awaited call that raises \<open>CancelledError\<close> ends \<open>play_game\<close> at once: no handler
  runs, \<open>save_game\<close> is not called, and control does not come back to the menu.
\<close>

lemma cancelled_await_skips_save:
  assumes "play_loop pre = (cs, AwaitingInput)"
    and "show_game_state t = None" and "console_input t = Inr line"
    and "awaited_call t = Some CancelledError"
  shows "play_game (pre @ t # rest) h =
     (cs @ [(ShowGameState, None), (fst (dispatch (lower (strip line))), Some CancelledError)],
      Cancelled)
   \<and> \<not> back_at_menu Cancelled"
proof -
  from assms(2-4) have
    "play_loop (t # rest) =
       ([(ShowGameState, None), (fst (dispatch (lower (strip line))), Some CancelledError)],
        Raised CancelledError)"
    by simp
  with play_loop_append [OF assms(1), of "t # rest"] show ?thesis
    by (simp add: play_game_def)
qed

text \<open>
  Claim C10, as stated, at concrete inputs. The command "quit" whose \<open>save_game\<close>
  raises an \<open>Exception\<close> ends in the \<^verbatim>\<open>except Exception\<close> clause, and a
  \<open>KeyboardInterrupt\<close> at the prompt whose handler's \<open>save_game\<close> raises an \<open>Exception\<close>
  leaves \<open>play_game\<close> with that exception: both times control is back at the main
  menu, \<open>save_game\<close> was called once, and that call did not return, so the session was
  not saved. And an interrupt that reaches the awaited \<open>look_around\<close> as a
  \<open>CancelledError\<close> ends \<open>play_game\<close> without any call of \<open>save_game\<close>.
\<close>

theorem play_game_leaves_unsaved:
  "play_game
     [\<lparr>show_game_state = None, console_input = Inr ''quit'',
       awaited_call = Some Exception\<rparr>] None
     = ([(ShowGameState, None), (SaveGame, Some Exception)], AfterException)
   \<and> back_at_menu AfterException
   \<and> play_game
     [\<lparr>show_game_state = None, console_input = Inl KeyboardInterrupt,
       awaited_call = None\<rparr>] (Some Exception)
     = ([(ShowGameState, None), (SaveGame, Some Exception)],
        AfterKeyboardInterrupt (Some Exception))
   \<and> back_at_menu (AfterKeyboardInterrupt (Some Exception))
   \<and> play_game
     [\<lparr>show_game_state = None, console_input = Inr ''look'',
       awaited_call = Some CancelledError\<rparr>] None
     = ([(ShowGameState, None), (LookAround, Some CancelledError)], Cancelled)"
proof -
  have q: "lower (strip ''quit'') = ''quit''" "lower (strip ''look'') = ''look''"
    by code_simp+
  show ?thesis by (simp add: play_game_def q dispatch_def)
qed

text \<open>
  Claim C10, amended. When \<open>play_game\<close> ends after the quit branch, its last call is a
  \<open>save_game\<close> that returned; when it ends through the \<open>KeyboardInterrupt\<close> handler, its
  last call is the handler's \<open>save_game\<close>, which saved the session if it returned. In a
  session in progress (the turns \<open>pre\<close> left the loop running), the command "quit",
  "exit" or "q" calls \<open>save_game\<close> and nothing after it: the loop is left by the quit
  route when the call returns, by the \<^verbatim>\<open>except Exception\<close> clause without a save when it
  raises an \<open>Exception\<close>, by the handler (which calls \<open>save_game\<close> again) when it raises
  \<open>KeyboardInterrupt\<close>, and without any handler when it raises \<open>CancelledError\<close>. A
  \<open>KeyboardInterrupt\<close> raised by \<open>show_game_state\<close>, by the prompt or by the awaited
  call makes the handler's \<open>save_game\<close> the last call.
\<close>

theorem play_game_saves_before_menu:
  "(play_game turns h = (calls, AfterQuit)
      \<longrightarrow> back_at_menu AfterQuit \<and> calls \<noteq> [] \<and> last calls = (SaveGame, None))
   \<and> (play_game turns h = (calls, AfterKeyboardInterrupt h')
      \<longrightarrow> h' = h \<and> calls \<noteq> [] \<and> last calls = (SaveGame, h))
   \<and> (play_loop pre = (cs, AwaitingInput) \<and> show_game_state t = None \<and>
      console_input t = Inr line \<and> lower (strip line) \<in> set [''quit'', ''exit'', ''q'']
      \<longrightarrow> play_game (pre @ t # rest) h =
          (case awaited_call t of
             None \<Rightarrow> (cs @ [(ShowGameState, None), (SaveGame, None)], AfterQuit)
           | Some Exception \<Rightarrow>
               (cs @ [(ShowGameState, None), (SaveGame, Some Exception)], AfterException)
           | Some KeyboardInterrupt \<Rightarrow>
               (cs @ [(ShowGameState, None), (SaveGame, Some KeyboardInterrupt),
                      (SaveGame, h)],
                AfterKeyboardInterrupt h)
           | Some CancelledError \<Rightarrow>
               (cs @ [(ShowGameState, None), (SaveGame, Some CancelledError)], Cancelled)))
   \<and> (play_loop pre = (cs, AwaitingInput) \<and>
      (show_game_state t = Some KeyboardInterrupt
       \<or> show_game_state t = None \<and> console_input t = Inl KeyboardInterrupt
       \<or> show_game_state t = None \<and> console_input t = Inr line
           \<and> awaited_call t = Some KeyboardInterrupt)
      \<longrightarrow> (\<exists>cs'. play_game (pre @ t # rest) h =
                   (cs' @ [(SaveGame, h)], AfterKeyboardInterrupt h)))"
proof (intro conjI impI)
  assume "play_game turns h = (calls, AfterQuit)"
  then have "calls \<noteq> [] \<and> last calls = (SaveGame, None)" by (rule quit_route_saved)
  then show "calls \<noteq> []" and "last calls = (SaveGame, None)" by simp_all
  show "back_at_menu AfterQuit" by simp
next
  assume "play_game turns h = (calls, AfterKeyboardInterrupt h')"
  then have "h' = h \<and> calls \<noteq> [] \<and> last calls = (SaveGame, h)"
    by (rule interrupt_route_saves)
  then show "h' = h" and "calls \<noteq> []" and "last calls = (SaveGame, h)" by simp_all
next
  assume "play_loop pre = (cs, AwaitingInput) \<and> show_game_state t = None \<and>
      console_input t = Inr line \<and> lower (strip line) \<in> set [''quit'', ''exit'', ''q'']"
  then show "play_game (pre @ t # rest) h =
     (case awaited_call t of
        None \<Rightarrow> (cs @ [(ShowGameState, None), (SaveGame, None)], AfterQuit)
      | Some Exception \<Rightarrow>
          (cs @ [(ShowGameState, None), (SaveGame, Some Exception)], AfterException)
      | Some KeyboardInterrupt \<Rightarrow>
          (cs @ [(ShowGameState, None), (SaveGame, Some KeyboardInterrupt), (SaveGame, h)],
           AfterKeyboardInterrupt h)
      | Some CancelledError \<Rightarrow>
          (cs @ [(ShowGameState, None), (SaveGame, Some CancelledError)], Cancelled))"
    using quit_command by blast
next
  assume "play_loop pre = (cs, AwaitingInput) \<and>
      (show_game_state t = Some KeyboardInterrupt
       \<or> show_game_state t = None \<and> console_input t = Inl KeyboardInterrupt
       \<or> show_game_state t = None \<and> console_input t = Inr line
           \<and> awaited_call t = Some KeyboardInterrupt)"
  then show "\<exists>cs'. play_game (pre @ t # rest) h =
      (cs' @ [(SaveGame, h)], AfterKeyboardInterrupt h)"
    using keyboard_interrupt by blast
qed

theorem play_game_saves_before_menu_witness:
  "play_game
     [\<lparr>show_game_state = None, console_input = Inr ''look'', awaited_call = None\<rparr>,
      \<lparr>show_game_state = None, console_input = Inr '' Q '', awaited_call = None\<rparr>] None
     = ([(ShowGameState, None), (LookAround, None), (ShowGameState, None), (SaveGame, None)],
        AfterQuit)
   \<and> last [(ShowGameState, None), (LookAround, None), (ShowGameState, None),
            (SaveGame, None :: signal option)] = (SaveGame, None)
   \<and> play_game
     [\<lparr>show_game_state = None, console_input = Inr ''look'', awaited_call = None\<rparr>,
      \<lparr>show_game_state = None, console_input = Inl KeyboardInterrupt,
        awaited_call = None\<rparr>] None
     = ([(ShowGameState, None), (LookAround, None), (ShowGameState, None), (SaveGame, None)],
        AfterKeyboardInterrupt None)
   \<and> (\<exists>cs'. play_game
        ([\<lparr>show_game_state = None, console_input = Inr ''look'', awaited_call = None\<rparr>] @
         \<lparr>show_game_state = None, console_input = Inl KeyboardInterrupt,
            awaited_call = None\<rparr> # []) None
       = (cs' @ [(SaveGame, None)], AfterKeyboardInterrupt None))"
proof -
  let ?tl = "\<lparr>show_game_state = None, console_input = Inr ''look'', awaited_call = None\<rparr>"
  let ?tq = "\<lparr>show_game_state = None, console_input = Inr '' Q '', awaited_call = None\<rparr>"
  let ?ti = "\<lparr>show_game_state = None, console_input = Inl KeyboardInterrupt,
               awaited_call = None\<rparr>"
  let ?pre = "[(ShowGameState, None :: signal option), (LookAround, None)]"
  let ?calls = "[(ShowGameState, None :: signal option), (LookAround, None),
                 (ShowGameState, None), (SaveGame, None)]"
  have q: "lower (strip '' Q '') = ''q''" by code_simp
  have l: "lower (strip ''look'') = ''look''" by code_simp
  have pre: "play_loop [?tl] = (?pre, AwaitingInput)"
    by (simp add: l dispatch_def)
  have 1: "play_game ([?tl] @ ?tq # []) None = (?calls, AfterQuit)"
    using pre q
      play_game_saves_before_menu [of _ None _ _ "[?tl]" ?pre ?tq "'' Q ''" "[]"]
    by simp
  then have run: "play_game [?tl, ?tq] None = (?calls, AfterQuit)" by simp
  have 2: "?calls \<noteq> [] \<and> last ?calls = (SaveGame, None)"
    using run play_game_saves_before_menu [of "[?tl, ?tq]" None ?calls]
    by blast
  have 3: "\<exists>cs'. play_game ([?tl] @ ?ti # []) None
       = (cs' @ [(SaveGame, None)], AfterKeyboardInterrupt None)"
    using pre
      play_game_saves_before_menu [of _ None _ _ "[?tl]" ?pre ?ti _ "[]"]
    by simp
  have runi: "play_game [?tl, ?ti] None = (?calls, AfterKeyboardInterrupt None)"
    by (simp add: play_game_def l dispatch_def)
  have 4: "last ?calls = (SaveGame, None)"
    using runi play_game_saves_before_menu [of "[?tl, ?ti]" None ?calls None]
    by blast
  from run 2 3 4 runi show ?thesis by simp
qed


section \<open>Properties of the quest generator plugin\<close>

lemma new_quest_open: "progress (new_quest c) < target_count (new_quest c)"
  by (cases c) simp_all

lemma consistent_new: "consistent new_plugin"
  by (simp add: consistent_def new_plugin_def)

lemma consistentI:
  assumes "\<And>n a. active_quests s n = Some a \<Longrightarrow> a < length (quests s)"
    and "\<And>n a. active_quests s n = Some a \<Longrightarrow>
           progress (quests s ! a) < target_count (quests s ! a)"
    and "\<And>n m a. active_quests s n = Some a \<Longrightarrow> active_quests s m = Some a \<Longrightarrow> n = m"
    and "\<And>a. a < length (quests s) \<Longrightarrow> progress (quests s ! a) \<le> target_count (quests s ! a)"
    and "distinct (completed s)"
    and "\<And>a. a \<in> set (completed s) \<longleftrightarrow>
           a < length (quests s) \<and> progress (quests s ! a) = target_count (quests s ! a)"
  shows "consistent s"
  unfolding consistent_def using assms by blast

lemma active_lt: "consistent s \<Longrightarrow> active_quests s n = Some a \<Longrightarrow> a < length (quests s)"
  unfolding consistent_def by blast

lemma active_open:
  "consistent s \<Longrightarrow> active_quests s n = Some a \<Longrightarrow>
   progress (quests s ! a) < target_count (quests s ! a)"
  unfolding consistent_def by blast

lemma active_inj:
  "consistent s \<Longrightarrow> active_quests s n = Some a \<Longrightarrow> active_quests s m = Some a \<Longrightarrow> n = m"
  unfolding consistent_def by blast

lemma progress_le:
  "consistent s \<Longrightarrow> a < length (quests s) \<Longrightarrow>
   progress (quests s ! a) \<le> target_count (quests s ! a)"
  unfolding consistent_def by blast

lemma completed_distinct: "consistent s \<Longrightarrow> distinct (completed s)"
  unfolding consistent_def by blast

lemma completed_iff:
  "consistent s \<Longrightarrow> a \<in> set (completed s) \<longleftrightarrow>
     a < length (quests s) \<and> progress (quests s ! a) = target_count (quests s ! a)"
  unfolding consistent_def by blast

lemma consistent_generate:
  assumes c: "consistent s"
  shows "consistent (generate_starter_quest ch p s)"
proof (rule consistentI)
  let ?s = "generate_starter_quest ch p s"
  have q: "quests ?s = quests s @ [new_quest ch]"
    and ac: "active_quests ?s = (active_quests s)(name p \<mapsto> length (quests s))"
    and co: "completed ?s = completed s"
    by (simp_all add: generate_starter_quest_def)
  show "a < length (quests ?s)" if "active_quests ?s n = Some a" for n a
    using that active_lt [OF c, of n a] by (auto simp: q ac split: if_splits)
  show "progress (quests ?s ! a) < target_count (quests ?s ! a)"
    if "active_quests ?s n = Some a" for n a
    using that active_lt [OF c, of n a] active_open [OF c, of n a] new_quest_open [of ch]
    by (auto simp: q ac nth_append split: if_splits)
  show "n = m" if "active_quests ?s n = Some a" "active_quests ?s m = Some a" for n m a
    using that active_lt [OF c, of n a] active_lt [OF c, of m a] active_inj [OF c, of n a m]
    by (auto simp: q ac split: if_splits)
  show "progress (quests ?s ! a) \<le> target_count (quests ?s ! a)"
    if "a < length (quests ?s)" for a
    using that progress_le [OF c, of a] new_quest_open [of ch]
    by (auto simp: q nth_append)
  show "distinct (completed ?s)" using completed_distinct [OF c] by (simp add: co)
  show "a \<in> set (completed ?s) \<longleftrightarrow>
          a < length (quests ?s) \<and> progress (quests ?s ! a) = target_count (quests ?s ! a)" for a
    using completed_iff [OF c, of a] new_quest_open [of ch]
    by (auto simp: q co nth_append)
qed

lemma consistent_progress:
  assumes c: "consistent s" and act: "active_quests s n = Some a"
    and lt: "progress (quests s ! a) + 1 < target_count (quests s ! a)"
  shows "consistent (increment_progress a s)" (is "consistent ?s")
proof (rule consistentI)
  have al: "a < length (quests s)" using active_lt [OF c act] .
  have len: "length (quests ?s) = length (quests s)" by (simp add: increment_progress_def)
  have ac: "active_quests ?s = active_quests s" and co: "completed ?s = completed s"
    by (simp_all add: increment_progress_def)
  have pa: "progress (quests ?s ! a) = progress (quests s ! a) + 1"
    and ta: "target_count (quests ?s ! a) = target_count (quests s ! a)"
    using al by (simp_all add: increment_progress_def)
  have other: "quests ?s ! b = quests s ! b" if "b \<noteq> a" for b
    using that by (simp add: increment_progress_def)
  show "b < length (quests ?s)" if "active_quests ?s m = Some b" for m b
    using that active_lt [OF c, of m b] by (simp add: len ac)
  show "progress (quests ?s ! b) < target_count (quests ?s ! b)"
    if "active_quests ?s m = Some b" for m b
    using that active_open [OF c, of m b] lt pa ta other [of b]
    by (cases "b = a") (simp_all add: ac)
  show "m = k" if "active_quests ?s m = Some b" "active_quests ?s k = Some b" for m k b
    using that active_inj [OF c, of m b k] by (simp add: ac)
  show "progress (quests ?s ! b) \<le> target_count (quests ?s ! b)"
    if "b < length (quests ?s)" for b
    using that progress_le [OF c, of b] lt pa ta other [of b]
    by (cases "b = a") (simp_all add: len)
  show "distinct (completed ?s)" using completed_distinct [OF c] by (simp add: co)
  show "b \<in> set (completed ?s) \<longleftrightarrow>
          b < length (quests ?s) \<and> progress (quests ?s ! b) = target_count (quests ?s ! b)" for b
    using completed_iff [OF c, of b] active_open [OF c act] lt pa ta other [of b]
    by (cases "b = a") (simp_all add: len co)
qed

lemma consistent_complete:
  assumes c: "consistent s" and act: "active_quests s (name p) = Some a"
    and ge: "progress (quests s ! a) + 1 \<ge> target_count (quests s ! a)"
  shows "consistent (fst (complete_quest ch p a (increment_progress a s)))"
    (is "consistent ?s")
proof (rule consistentI)
  have al: "a < length (quests s)" using active_lt [OF c act] .
  have eq: "progress (quests s ! a) + 1 = target_count (quests s ! a)"
    using ge active_open [OF c act] by simp
  have len: "length (quests ?s) = Suc (length (quests s))"
    by (simp add: complete_quest_def generate_starter_quest_def increment_progress_def)
  have ac: "active_quests ?s = (active_quests s)(name p \<mapsto> length (quests s))"
    by (simp add: complete_quest_def generate_starter_quest_def increment_progress_def)
  have co: "completed ?s = completed s @ [a]"
    by (simp add: complete_quest_def generate_starter_quest_def increment_progress_def)
  have pa: "progress (quests ?s ! a) = target_count (quests ?s ! a)"
    using al eq by (simp add: complete_quest_def generate_starter_quest_def increment_progress_def nth_append)
  have other: "quests ?s ! b = quests s ! b" if "b \<noteq> a" "b < length (quests s)" for b
    using that by (simp add: complete_quest_def generate_starter_quest_def increment_progress_def nth_append)
  have new: "quests ?s ! length (quests s) = new_quest ch"
    by (simp add: complete_quest_def generate_starter_quest_def increment_progress_def nth_append)
  have na: "a \<notin> set (completed s)"
    using completed_iff [OF c, of a] active_open [OF c act] by simp
  have old: "b \<noteq> a \<and> b < length (quests s)"
    if "m \<noteq> name p" "active_quests s m = Some b" for m b
    using that active_inj [OF c that(2), of "name p"] act active_lt [OF c that(2)] by auto
  show "b < length (quests ?s)" if "active_quests ?s m = Some b" for m b
    using that active_lt [OF c, of m b] by (auto simp: len ac split: if_splits)
  show "progress (quests ?s ! b) < target_count (quests ?s ! b)"
    if "active_quests ?s m = Some b" for m b
  proof (cases "m = name p")
    case True
    with that have "b = length (quests s)" by (simp add: ac)
    then show ?thesis using new new_quest_open [of ch] by simp
  next
    case False
    with that have m: "active_quests s m = Some b" by (simp add: ac)
    from old [OF False m] other [of b] active_open [OF c m] show ?thesis by simp
  qed
  show "m = k" if "active_quests ?s m = Some b" "active_quests ?s k = Some b" for m k b
    using that active_lt [OF c, of m b] active_lt [OF c, of k b] active_inj [OF c, of m b k]
    by (auto simp: ac split: if_splits)
  show "progress (quests ?s ! b) \<le> target_count (quests ?s ! b)"
    if bl: "b < length (quests ?s)" for b
  proof -
    consider "b = a" | "b = length (quests s)" | "b \<noteq> a" "b < length (quests s)"
      using bl len by linarith
    then show ?thesis
    proof cases
      case 1 then show ?thesis using pa by simp
    next
      case 2 then show ?thesis using new new_quest_open [of ch] by simp
    next
      case 3 then show ?thesis using other [of b] progress_le [OF c, of b] by simp
    qed
  qed
  show "distinct (completed ?s)" using completed_distinct [OF c] na by (simp add: co)
  show "b \<in> set (completed ?s) \<longleftrightarrow>
          b < length (quests ?s) \<and> progress (quests ?s ! b) = target_count (quests ?s ! b)" for b
  proof -
    consider "b = a" | "b = length (quests s)" | "b \<noteq> a" "b < length (quests s)"
      | "b > length (quests s)"
      by linarith
    then show ?thesis
    proof cases
      case 1 then show ?thesis using pa al by (simp add: co len)
    next
      case 2 then show ?thesis
        using new new_quest_open [of ch] completed_iff [OF c, of b] al by (auto simp: co len)
    next
      case 3 then show ?thesis
        using other [of b] completed_iff [OF c, of b] by (simp add: co len)
    next
      case 4 then show ?thesis
        using completed_iff [OF c, of b] al by (auto simp: co len)
    qed
  qed
qed

lemma progress_incremented:
  "a < length (quests s) \<Longrightarrow>
   progress (quests (increment_progress a s) ! a) = progress (quests s ! a) + 1 \<and>
   target_count (quests (increment_progress a s) ! a) = target_count (quests s ! a)"
  by (simp add: increment_progress_def)

lemma consistent_update:
  assumes c: "consistent s"
  shows "consistent (fst (update_quest_progress ch p qt s))"
proof (cases "active_quests s (name p)")
  case None
  then show ?thesis using c by (simp add: update_quest_progress_def)
next
  case (Some a)
  note pi = progress_incremented [OF active_lt [OF c Some]]
  show ?thesis
  proof (cases "quest_type (quests s ! a) = qt")
    case False
    then show ?thesis using c Some by (simp add: update_quest_progress_def)
  next
    case True
    show ?thesis
    proof (cases "progress (quests s ! a) + 1 \<ge> target_count (quests s ! a)")
      case ge: True
      then have "update_quest_progress ch p qt s =
          complete_quest ch p a (increment_progress a s)"
        using Some True pi by (simp add: update_quest_progress_def Let_def)
      then show ?thesis using consistent_complete [OF c Some ge] by simp
    next
      case lt: False
      then have "update_quest_progress ch p qt s = (increment_progress a s, p)"
        using Some True pi by (simp add: update_quest_progress_def Let_def)
      then show ?thesis using consistent_progress [OF c Some] lt by simp
    qed
  qed
qed

lemma consistent_on_hook: "consistent s \<Longrightarrow> consistent (fst (on_hook h ch p s))"
  by (cases h) (simp_all add: consistent_generate consistent_update)

lemma consistent_run:
  "consistent s \<Longrightarrow> consistent (fst (run_hooks events s))"
proof (induction events arbitrary: s)
  case Nil
  then show ?case by simp
next
  case (Cons e events)
  obtain h ch p where e: "e = (h, ch, p)" by (cases e)
  from Cons.IH [OF consistent_on_hook [OF Cons.prems, of h ch p]] show ?case
    by (simp add: e)
qed

lemma count_list_distinct:
  "distinct xs \<Longrightarrow> count_list xs a = (if a \<in> set xs then 1 else 0)"
  by (induction xs) auto

lemma completed_lt: "consistent s \<Longrightarrow> a \<in> set (completed s) \<Longrightarrow> a < length (quests s)"
  by (simp add: completed_iff)

lemma completed_not_active:
  "consistent s \<Longrightarrow> a \<in> set (completed s) \<Longrightarrow> active_quests s n \<noteq> Some a"
  using active_open [of s n a] completed_iff [of s a] by fastforce

text \<open>The four things a hook call can do.\<close>

lemma update_cases:
  "update_quest_progress ch p qt s = (s, p) \<or>
   (\<exists>a. active_quests s (name p) = Some a \<and>
      (update_quest_progress ch p qt s = (increment_progress a s, p) \<or>
       update_quest_progress ch p qt s = complete_quest ch p a (increment_progress a s)))"
  by (simp add: update_quest_progress_def Let_def split: option.splits)

lemma on_hook_cases:
  obtains
    (start) "on_hook h ch p s = (generate_starter_quest ch p s, p)"
  | (idle) "on_hook h ch p s = (s, p)"
  | (progress) a where "active_quests s (name p) = Some a"
      and "on_hook h ch p s = (increment_progress a s, p)"
  | (complete) a where "active_quests s (name p) = Some a"
      and "on_hook h ch p s = complete_quest ch p a (increment_progress a s)"
proof (cases h)
  case OnGameStart
  then show ?thesis using start by simp
next
  case OnCreatureDefeated
  then show ?thesis
    using update_cases [of ch p "''combat''" s] idle progress complete by auto
next
  case OnLocationVisited
  then show ?thesis
    using update_cases [of ch p "''exploration''" s] idle progress complete by auto
next
  case OnItemCollected
  then show ?thesis
    using update_cases [of ch p "''collection''" s] idle progress complete by auto
qed

lemma increment_reward:
  "b < length (quests s) \<Longrightarrow>
   reward_exp (quests (increment_progress a s) ! b) = reward_exp (quests s ! b)"
  by (cases "b = a") (simp_all add: increment_progress_def)

lemma increment_other:
  "b \<noteq> a \<Longrightarrow> quests (increment_progress a s) ! b = quests s ! b"
  by (simp add: increment_progress_def)

lemma increment_fields:
  "length (quests (increment_progress a s)) = length (quests s)"
  "completed (increment_progress a s) = completed s"
  "active_quests (increment_progress a s) = active_quests s"
  by (simp_all add: increment_progress_def)

lemma generate_fields:
  "b < length (quests s) \<Longrightarrow> quests (generate_starter_quest ch p s) ! b = quests s ! b"
  "completed (generate_starter_quest ch p s) = completed s"
  by (simp_all add: generate_starter_quest_def nth_append)

lemma complete_fields:
  "b < length (quests s) \<Longrightarrow> quests (fst (complete_quest ch p a s)) ! b = quests s ! b"
  "completed (fst (complete_quest ch p a s)) = completed s @ [a]"
  "experience (snd (complete_quest ch p a s)) = experience p + reward_exp (quests s ! a)"
  by (simp_all add: complete_quest_def generate_starter_quest_def nth_append)

lemma on_hook_frame:
  assumes c: "consistent s" and a: "a \<in> set (completed s)"
  shows "quests (fst (on_hook h ch p s)) ! a = quests s ! a"
proof -
  note al = completed_lt [OF c a]
  show ?thesis
  proof (cases rule: on_hook_cases [of h ch p s])
    case start
    then show ?thesis using al by (simp add: generate_fields)
  next
    case idle
    then show ?thesis by simp
  next
    case (progress b)
    then have "a \<noteq> b" using completed_not_active [OF c a, of "name p"] by auto
    then show ?thesis using progress by (simp add: increment_other)
  next
    case (complete b)
    then have "a \<noteq> b" using completed_not_active [OF c a, of "name p"] by auto
    then show ?thesis
      using complete al by (simp add: complete_fields increment_fields increment_other)
  qed
qed

lemma on_hook_reward:
  assumes "a < length (quests s)"
  shows "reward_exp (quests (fst (on_hook h ch p s)) ! a) = reward_exp (quests s ! a)"
  using assms
  by (cases rule: on_hook_cases [of h ch p s])
     (simp_all add: generate_fields complete_fields increment_fields increment_reward)

lemma on_hook_completed:
  "\<exists>new. completed (fst (on_hook h ch p s)) = completed s @ new"
  by (cases rule: on_hook_cases [of h ch p s])
     (simp_all add: generate_fields complete_fields increment_fields)

lemma run_frame:
  assumes "consistent s" and "a \<in> set (completed s)"
  shows "quests (fst (run_hooks events s)) ! a = quests s ! a
       \<and> a \<in> set (completed (fst (run_hooks events s)))"
  using assms
proof (induction events arbitrary: s)
  case Nil
  then show ?case by simp
next
  case (Cons e events)
  obtain h ch p where e: "e = (h, ch, p)" by (cases e)
  let ?s = "fst (on_hook h ch p s)"
  have c': "consistent ?s" using consistent_on_hook [OF Cons.prems(1)] .
  have q: "quests ?s ! a = quests s ! a" using on_hook_frame [OF Cons.prems] .
  have m: "a \<in> set (completed ?s)"
    using on_hook_completed [of h ch p s] Cons.prems(2) by auto
  from Cons.IH [OF c' m] q show ?case by (simp add: e)
qed

text \<open>Experience is added exactly when a completion is recorded, by that quest's reward.\<close>

lemma sum_rewards_kept:
  assumes "\<And>a. a \<in> set xs \<Longrightarrow> reward_exp (qs' ! a) = reward_exp (qs ! a)"
  shows "(\<Sum>a\<leftarrow>xs. reward_exp (qs' ! a)) = (\<Sum>a\<leftarrow>xs. reward_exp (qs ! a))"
  using assms by (induction xs) simp_all

lemma on_hook_experience:
  assumes c: "consistent s" and st: "on_hook h ch p s = (s', p')"
  shows "experience p' - experience p = rewards s' - rewards s"
proof -
  have "reward_exp (quests s' ! a) = reward_exp (quests s ! a)" if "a \<in> set (completed s)" for a
    using on_hook_reward [OF completed_lt [OF c that], of h ch p] st by simp
  then have keep: "(\<Sum>a\<leftarrow>completed s. reward_exp (quests s' ! a)) = rewards s"
    unfolding rewards_def by (rule sum_rewards_kept)
  show ?thesis
  proof (cases rule: on_hook_cases [of h ch p s])
    case start
    with st have "completed s' = completed s" "p' = p" by (auto simp: generate_fields)
    then show ?thesis using keep by (simp add: rewards_def)
  next
    case idle
    with st show ?thesis by simp
  next
    case (progress a)
    with st have "completed s' = completed s" "p' = p" by (auto simp: increment_fields)
    then show ?thesis using keep by (simp add: rewards_def)
  next
    case (complete a)
    have al: "a < length (quests s)" using active_lt [OF c complete(1)] .
    from complete(2) st have s': "s' = fst (complete_quest ch p a (increment_progress a s))"
      and p': "p' = snd (complete_quest ch p a (increment_progress a s))"
      by (metis fst_conv, metis snd_conv)
    have co: "completed s' = completed s @ [a]"
      unfolding s' by (simp add: complete_fields increment_fields)
    have ex: "experience p' = experience p + reward_exp (quests s ! a)"
      unfolding p' using al by (simp add: complete_fields increment_reward)
    have "reward_exp (quests s' ! a) = reward_exp (quests s ! a)"
      using on_hook_reward [OF al, of h ch p] st by simp
    then show ?thesis using keep ex by (simp add: rewards_def co)
  qed
qed

lemma run_experience:
  assumes "consistent s"
  shows "experience_gained events (snd (run_hooks events s)) =
     rewards (fst (run_hooks events s)) - rewards s"
  using assms
proof (induction events arbitrary: s)
  case Nil
  then show ?case by simp
next
  case (Cons e events)
  obtain h ch p where e: "e = (h, ch, p)" by (cases e)
  let ?s = "fst (on_hook h ch p s)" and ?p = "snd (on_hook h ch p s)"
  have c': "consistent ?s" using consistent_on_hook [OF Cons.prems] .
  have "experience ?p - experience p = rewards ?s - rewards s"
    using on_hook_experience [OF Cons.prems, of h ch p ?s ?p] by simp
  with Cons.IH [OF c'] show ?case by (simp add: e)
qed

text \<open>
  Claim C3. In every state the plugin reaches from its initial state, whichever
  players its hooks are called with, no quest object has progress above its target
  count, and \<open>_complete_quest\<close> has been called exactly once for each quest whose
  progress is at the target and never for any other; the experience the hook calls
  added to the players is the sum of the rewards of these calls. Whatever hooks are
  called afterwards, a completed quest object stays as it was (its progress is not
  incremented again) and is completed once still, and the experience the later calls
  add is the sum of the rewards of the completions they add.
\<close>

theorem quest_completion_once:
  assumes "run_hooks events new_plugin = (s, ps)" and "run_hooks later s = (s', ps')"
  shows "(\<forall>a < length (quests s). progress (quests s ! a) \<le> target_count (quests s ! a))
       \<and> (\<forall>a < length (quests s). count_list (completed s) a =
             (if progress (quests s ! a) = target_count (quests s ! a) then 1 else 0))
       \<and> experience_gained events ps = (\<Sum>a\<leftarrow>completed s. reward_exp (quests s ! a))
       \<and> (\<forall>a \<in> set (completed s).
             quests s' ! a = quests s ! a \<and> count_list (completed s') a = 1)
       \<and> experience_gained later ps' =
             (\<Sum>a\<leftarrow>completed s'. reward_exp (quests s' ! a))
             - (\<Sum>a\<leftarrow>completed s. reward_exp (quests s ! a))"
proof -
  have c: "consistent s"
    using consistent_run [OF consistent_new, of events] assms(1) by simp
  have c': "consistent s'" using consistent_run [OF c, of later] assms(2) by simp
  have 1: "\<forall>a < length (quests s). progress (quests s ! a) \<le> target_count (quests s ! a)"
    using progress_le [OF c] by blast
  have 2: "\<forall>a < length (quests s). count_list (completed s) a =
             (if progress (quests s ! a) = target_count (quests s ! a) then 1 else 0)"
    using count_list_distinct [OF completed_distinct [OF c]] completed_iff [OF c] by simp
  have 3: "experience_gained events ps = rewards s"
    using run_experience [OF consistent_new, of events] assms(1)
    by (simp add: rewards_def new_plugin_def)
  have 4: "\<forall>a \<in> set (completed s).
             quests s' ! a = quests s ! a \<and> count_list (completed s') a = 1"
    using run_frame [OF c, of _ later] assms(2)
      count_list_distinct [OF completed_distinct [OF c']] by simp
  have 5: "experience_gained later ps' = rewards s' - rewards s"
    using run_experience [OF c, of later] assms(2) by simp
  from 1 2 3 4 5 show ?thesis unfolding rewards_def by blast
qed


theorem quest_completion_once_witness:
  "completed (fst (run_hooks
      [(OnGameStart, MonsterHunter, hero), (OnCreatureDefeated, Explorer, hero),
       (OnLocationVisited, Explorer, hero), (OnCreatureDefeated, Explorer, hero),
       (OnCreatureDefeated, Explorer, hero)] new_plugin)) = [0]
   \<and> map experience (snd (run_hooks
      [(OnGameStart, MonsterHunter, hero), (OnCreatureDefeated, Explorer, hero),
       (OnLocationVisited, Explorer, hero), (OnCreatureDefeated, Explorer, hero),
       (OnCreatureDefeated, Explorer, hero)] new_plugin)) = [0, 0, 0, 0, 100]
   \<and> map progress (quests (fst (run_hooks
      [(OnCreatureDefeated, Collector, hero\<lparr>experience := 100\<rparr>),
       (OnLocationVisited, Collector, hero\<lparr>experience := 100\<rparr>)]
      (fst (run_hooks
        [(OnGameStart, MonsterHunter, hero), (OnCreatureDefeated, Explorer, hero),
         (OnLocationVisited, Explorer, hero), (OnCreatureDefeated, Explorer, hero),
         (OnCreatureDefeated, Explorer, hero)] new_plugin))))) = [3, 1]
   \<and> count_list (completed (fst (run_hooks
      [(OnCreatureDefeated, Collector, hero\<lparr>experience := 100\<rparr>),
       (OnLocationVisited, Collector, hero\<lparr>experience := 100\<rparr>)]
      (fst (run_hooks
        [(OnGameStart, MonsterHunter, hero), (OnCreatureDefeated, Explorer, hero),
         (OnLocationVisited, Explorer, hero), (OnCreatureDefeated, Explorer, hero),
         (OnCreatureDefeated, Explorer, hero)] new_plugin))))) 0 = 1
   \<and> experience_gained
      [(OnCreatureDefeated, Collector, hero\<lparr>experience := 100\<rparr>),
       (OnLocationVisited, Collector, hero\<lparr>experience := 100\<rparr>)]
      (snd (run_hooks
      [(OnCreatureDefeated, Collector, hero\<lparr>experience := 100\<rparr>),
       (OnLocationVisited, Collector, hero\<lparr>experience := 100\<rparr>)]
      (fst (run_hooks
        [(OnGameStart, MonsterHunter, hero), (OnCreatureDefeated, Explorer, hero),
         (OnLocationVisited, Explorer, hero), (OnCreatureDefeated, Explorer, hero),
         (OnCreatureDefeated, Explorer, hero)] new_plugin)))) = 0"
proof -
  let ?E = "[(OnGameStart, MonsterHunter, hero), (OnCreatureDefeated, Explorer, hero),
       (OnLocationVisited, Explorer, hero), (OnCreatureDefeated, Explorer, hero),
       (OnCreatureDefeated, Explorer, hero)]"
  let ?L = "[(OnCreatureDefeated, Collector, hero\<lparr>experience := 100\<rparr>),
       (OnLocationVisited, Collector, hero\<lparr>experience := 100\<rparr>)]"
  let ?s = "fst (run_hooks ?E new_plugin)" and ?ps = "snd (run_hooks ?E new_plugin)"
  let ?s' = "fst (run_hooks ?L ?s)" and ?ps' = "snd (run_hooks ?L ?s)"
  have r: "run_hooks ?E new_plugin = (?s, ?ps)" and r': "run_hooks ?L ?s = (?s', ?ps')"
    by simp_all
  have co: "completed ?s = [0]" by code_simp
  have ex: "map experience ?ps = [0, 0, 0, 0, 100]" by code_simp
  have pr: "map progress (quests ?s') = [3, 1]" by code_simp
  have co': "completed ?s' = [0]" by code_simp
  note t = quest_completion_once [OF r r']
  from t co have 4: "count_list (completed ?s') 0 = 1" by simp
  from t co co' have 5: "experience_gained ?L ?ps' = reward_exp (quests ?s' ! 0) - reward_exp (quests ?s ! 0)"
    by simp
  from t co have "quests ?s' ! 0 = quests ?s ! 0" by simp
  with 5 have 6: "experience_gained ?L ?ps' = 0" by simp
  from co ex pr 4 6 show ?thesis by simp
qed


section \<open>Properties of the entity model and the content cache\<close>

text \<open>
  Claim C2. For a player with health between 0 and \<open>max_health\<close> and any damage that
  is not negative, also one above the current health, the health after \<open>apply_damage\<close>
  is between 0 and \<open>max_health\<close>: it is the health less the damage, or 0 when the damage
  reaches the health; and the value returned tells whether the health reached 0.
\<close>

theorem apply_damage_clamps:
  assumes "0 \<le> health p" and "health p \<le> max_health p" and "0 \<le> amount"
  shows "0 \<le> health (snd (apply_damage amount p))
       \<and> health (snd (apply_damage amount p)) \<le> max_health (snd (apply_damage amount p))
       \<and> health (snd (apply_damage amount p)) =
           (if health p \<le> amount then 0 else health p - amount)
       \<and> (fst (apply_damage amount p) \<longleftrightarrow> health (snd (apply_damage amount p)) = 0)"
  using assms by (simp add: apply_damage_def Let_def)

theorem apply_damage_clamps_witness:
  "apply_damage 150 hero = (True, hero\<lparr>health := 0\<rparr>)
   \<and> apply_damage 30 hero = (False, hero\<lparr>health := 70\<rparr>)
   \<and> max_health (hero\<lparr>health := 70\<rparr>) = 100"
proof -
  have h: "0 \<le> health hero" "health hero \<le> max_health hero" "health hero = 100"
    by (simp_all add: hero_def)
  have a: "health (snd (apply_damage 150 hero)) = 0 \<and> fst (apply_damage 150 hero)"
    using apply_damage_clamps [OF h(1,2), of 150] h(3) by simp
  have b: "health (snd (apply_damage 30 hero)) = 70 \<and> \<not> fst (apply_damage 30 hero)"
    using apply_damage_clamps [OF h(1,2), of 30] h(3) by simp
  have c: "snd (apply_damage n hero) = hero\<lparr>health := health (snd (apply_damage n hero))\<rparr>"
    for n by (simp add: apply_damage_def Let_def)
  from a c [of 150] have 1: "apply_damage 150 hero = (True, hero\<lparr>health := 0\<rparr>)"
    by (metis prod.collapse)
  from b c [of 30] have 2: "apply_damage 30 hero = (False, hero\<lparr>health := 70\<rparr>)"
    by (metis prod.collapse)
  from 1 2 show ?thesis by (simp add: hero_def)
qed























end
